theory Spec2Isabelle
  imports Main
begin

section \<open>The doc command of konstraint: internal/commands/doc.go\<close>

text \<open>
  A Go \<open>string\<close> is a sequence of bytes, here a \<open>string\<close> (a \<open>char list\<close>). A slice is
  a list; the nil slice and the empty slice are both \<open>[]\<close> (the source only ranges over
  its slices, appends to them and joins them, which does not tell the two apart).
\<close>

subsection \<open>The functions of package strings that the source calls\<close>

text \<open>\<open>strings.HasPrefix\<close>, the test \<open>strings.Contains\<close> makes at each position.\<close>

fun HasPrefix :: "string \<Rightarrow> string \<Rightarrow> bool" where
  "HasPrefix s [] = True"
| "HasPrefix [] (p # ps) = False"
| "HasPrefix (c # cs) (p # ps) = (c = p \<and> HasPrefix cs ps)"

text \<open>\<open>strings.Contains(s, substr)\<close>: \<open>substr\<close> occurs at some position of \<open>s\<close>.\<close>

fun Contains :: "string \<Rightarrow> string \<Rightarrow> bool" where
  "Contains [] substr = HasPrefix [] substr"
| "Contains (c # cs) substr = (HasPrefix (c # cs) substr \<or> Contains cs substr)"

text \<open>
  \<open>strings.Split(s, sep)\<close> for a separator of one byte, the only way the source calls
  it (\<open>" "\<close> and \<open>"/"\<close>): the pieces between the occurrences of the separator, empty
  pieces included, so the result has one more element than \<open>s\<close> has separators and
  is never empty (\<open>Split("", " ")\<close> is \<open>[""]\<close>).
\<close>

fun Split :: "string \<Rightarrow> char \<Rightarrow> string list" where
  "Split [] sep = [[]]"
| "Split (c # cs) sep =
     (if c = sep then [] # Split cs sep
      else (case Split cs sep of [] \<Rightarrow> [[c]] | t # ts \<Rightarrow> (c # t) # ts))"

text \<open>
  \<open>strings.Trim(s, cutset)\<close> for a cutset of ASCII bytes: the leading and the trailing
  bytes of \<open>s\<close> that are in the cutset are removed.
\<close>

definition TrimLeft :: "string \<Rightarrow> string \<Rightarrow> string" where
  "TrimLeft s cutset = dropWhile (\<lambda>c. c \<in> set cutset) s"

definition TrimRight :: "string \<Rightarrow> string \<Rightarrow> string" where
  "TrimRight s cutset = rev (dropWhile (\<lambda>c. c \<in> set cutset) (rev s))"

definition Trim :: "string \<Rightarrow> string \<Rightarrow> string" where
  "Trim s cutset = TrimLeft (TrimRight s cutset) cutset"

text \<open>\<open>strings.Join(elems, sep)\<close>.\<close>

fun Join :: "string list \<Rightarrow> string \<Rightarrow> string" where
  "Join [] sep = []"
| "Join [e] sep = e"
| "Join (e # e' # es) sep = e @ sep @ Join (e' # es) sep"

text \<open>
  \<open>strings.EqualFold(s, t)\<close> walks both strings from the left. While both are at a byte
  below \<open>utf8.RuneSelf\<close> (0x80), the two bytes match when they are equal, or when the
  smaller one is an upper-case letter \<open>'A'..'Z'\<close> and the larger one is that letter in
  lower case (\<open>foldEq\<close>, used for such bytes only); a mismatch, or one string ending
  before the other, gives \<open>false\<close>, and both ending together gives \<open>true\<close>. From the
  first position where one of the two bytes is 0x80 or more, the result is that of the
  rune loop of the library (label \<open>hasUnicode\<close>) on what is left of both strings: it
  decodes UTF-8 and folds by the tables of package unicode. The tables are not part of
  this repository, so that loop is the parameter \<open>hasUnicode\<close>, and what is proved for
  every \<open>hasUnicode\<close> holds of the library function.
\<close>

type_synonym unicodeFold = "string \<Rightarrow> string \<Rightarrow> bool"

definition foldEq :: "char \<Rightarrow> char \<Rightarrow> bool" where
  "foldEq s t =
     (let sr = min (of_char s :: nat) (of_char t); tr = max (of_char s :: nat) (of_char t)
      in tr = sr \<or> (65 \<le> sr \<and> sr \<le> 90 \<and> tr = sr + 32))"

fun EqualFold :: "unicodeFold \<Rightarrow> string \<Rightarrow> string \<Rightarrow> bool" where
  "EqualFold hasUnicode [] [] = True"
| "EqualFold hasUnicode (s # ss) (t # ts) =
     (if 128 \<le> (of_char s :: nat) \<or> 128 \<le> (of_char t :: nat)
      then hasUnicode (s # ss) (t # ts)
      else foldEq s t \<and> EqualFold hasUnicode ss ts)"
| "EqualFold hasUnicode [] (t # ts) = False"
| "EqualFold hasUnicode (s # ss) [] = False"

text \<open>
  The closed examples of this theory are runs on ASCII text, where \<open>EqualFold\<close> never
  reaches \<open>hasUnicode\<close> and its result is the same for every \<open>hasUnicode\<close> (lemma
  \<open>EqualFold_ascii\<close> below). They are stated with this value for the parameter, as
  they are with \<open>parsed\<close> for the parser.
\<close>

definition asciiText :: unicodeFold where
  "asciiText s t = False"

subsection \<open>Errors and runtime faults\<close>

text \<open>
  An error value is what an external collaborator reported (\<open>External\<close>, with its
  message), the parser's set of syntax errors (\<open>ParserErrors\<close>), or
  \<open>fmt.Errorf("<prefix>: %w", err)\<close> around another error.
\<close>

datatype error = External string | ParserErrors "string list" | Errorf string error

text \<open>
  A Go function that returns \<open>(value, error)\<close> has three outcomes: the value, an error
  value, or a runtime panic that unwinds the whole run.
\<close>

datatype panic = SliceBoundsOutOfRange | IndexOutOfRange

datatype failure = Returned error | Panicked panic

subsection \<open>PolicyCommentBlock\<close>

record PolicyCommentBlock =
  APIGroups :: "string list"
  Kinds :: "string list"
  Description :: string

subsection \<open>contains and getDedupedGroups\<close>

text \<open>
  Both, and the functions that call them, carry the parameter of \<open>EqualFold\<close> along.
\<close>

fun contains :: "unicodeFold \<Rightarrow> string list \<Rightarrow> string \<Rightarrow> bool" where
  "contains hasUnicode [] grp = False"
| "contains hasUnicode (currentGroup # groups) grp =
     (if EqualFold hasUnicode currentGroup grp then True else contains hasUnicode groups grp)"

text \<open>The loop of \<open>getDedupedGroups\<close>, with \<open>dedupedGroups\<close> as its accumulator.\<close>

fun dedupLoop :: "unicodeFold \<Rightarrow> string list \<Rightarrow> string list \<Rightarrow> string list" where
  "dedupLoop hasUnicode dedupedGroups [] = dedupedGroups"
| "dedupLoop hasUnicode dedupedGroups (grp # groups) =
     (if \<not> contains hasUnicode dedupedGroups grp
      then dedupLoop hasUnicode (dedupedGroups @ [grp]) groups
      else dedupLoop hasUnicode dedupedGroups groups)"

definition getDedupedGroups :: "unicodeFold \<Rightarrow> string list \<Rightarrow> string list" where
  "getDedupedGroups hasUnicode groups = dedupLoop hasUnicode [] groups"

subsection \<open>getPolicyCommentBlocks\<close>

text \<open>
  The inner loop over \<open>kindGroups\<close> (lines 109-114). \<open>kindTokens[0]\<close> always exists;
  \<open>kindTokens[1]\<close> panics when the token has no \<open>'/'\<close>.
\<close>

fun kindGroupLoop ::
  "string list \<Rightarrow> string list \<Rightarrow> string list \<Rightarrow> failure + (string list \<times> string list)" where
  "kindGroupLoop apiGroups kinds [] = Inr (apiGroups, kinds)"
| "kindGroupLoop apiGroups kinds (kindGroup # kindGroups) =
     (let kindTokens = Split kindGroup (CHR ''/'')
      in if length kindTokens < 2 then Inl (Panicked IndexOutOfRange)
         else kindGroupLoop (apiGroups @ [kindTokens ! 0]) (kinds @ [kindTokens ! 1]) kindGroups)"

text \<open>
  The marker branch of the loop body (lines 104-122): the record built from a comment
  that contains \<open>@Kinds\<close>, with the description current at that point.
  \<open>kindGroups[2:]\<close> panics when there are fewer than two tokens.
\<close>

definition kindsBlock ::
  "unicodeFold \<Rightarrow> string \<Rightarrow> string \<Rightarrow> failure + PolicyCommentBlock" where
  "kindsBlock hasUnicode description commentText =
     (let kindGroups = Split commentText (CHR '' '')
      in if length kindGroups < 2 then Inl (Panicked SliceBoundsOutOfRange)
         else (case kindGroupLoop [] [] (drop 2 kindGroups) of
                 Inl f \<Rightarrow> Inl f
               | Inr (apiGroups, kinds) \<Rightarrow>
                   Inr \<lparr>APIGroups = getDedupedGroups hasUnicode apiGroups,
                        Kinds = kinds,
                        Description = Trim description '' ''\<rparr>))"

text \<open>
  The loop over \<open>policyComments\<close> (lines 101-128), with the two variables it updates,
  \<open>description\<close> and \<open>policyCommentBlocks\<close>, passed along.
\<close>

fun commentLoop ::
  "unicodeFold \<Rightarrow> string \<Rightarrow> PolicyCommentBlock list \<Rightarrow> string list
     \<Rightarrow> failure + PolicyCommentBlock list" where
  "commentLoop hasUnicode description policyCommentBlocks [] = Inr policyCommentBlocks"
| "commentLoop hasUnicode description policyCommentBlocks (commentText # policyComments) =
     (if Contains commentText ''@Kinds''
      then (case kindsBlock hasUnicode description commentText of
              Inl f \<Rightarrow> Inl f
            | Inr policyCommentBlock \<Rightarrow>
                commentLoop hasUnicode description (policyCommentBlocks @ [policyCommentBlock])
                  policyComments)
      else commentLoop hasUnicode commentText policyCommentBlocks policyComments)"

text \<open>
  The Rego parser is external: \<open>parse\<close> stands for
  \<open>ast.NewParser().WithReader(...).Parse()\<close> and gives the texts of the comments of
  the policy, in the order the parser reports them, and the messages of its syntax errors.
\<close>

type_synonym parser = "string \<Rightarrow> string list \<times> string list"

definition getPolicyCommentBlocks ::
  "unicodeFold \<Rightarrow> parser \<Rightarrow> string \<Rightarrow> failure + PolicyCommentBlock list" where
  "getPolicyCommentBlocks hasUnicode parse policy =
     (case parse policy of
        (policyComments, errors) \<Rightarrow>
          if length errors > 0
          then Inl (Returned (Errorf ''parsing rego'' (ParserErrors errors)))
          else commentLoop hasUnicode [] [] policyComments)"

text \<open>A parser run that reports the given comments and no syntax error.\<close>

definition parsed :: "string list \<Rightarrow> parser" where
  "parsed policyComments policy = (policyComments, [])"

subsection \<open>getPolicyDocumentation and runDocCommand\<close>

text \<open>
  The collaborators outside this file, over a world \<open>'w\<close> (the file system):
  \<open>getRegoFilePaths\<close> (another file of the package), \<open>ioutil.ReadFile\<close>, the parser,
  the Unicode part of \<open>strings.EqualFold\<close>, \<open>viper.GetString("output")\<close>,
  \<open>filepath.Join\<close> and \<open>ioutil.WriteFile\<close>, which alone changes the world.
\<close>

record 'w env =
  getRegoFilePaths :: "'w \<Rightarrow> string \<Rightarrow> error + string list"
  ReadFile :: "'w \<Rightarrow> string \<Rightarrow> error + string"
  unicodePath :: unicodeFold
  Parse :: parser
  viperOutput :: string
  filepathJoin :: "string \<Rightarrow> string \<Rightarrow> string"
  WriteFile :: "string \<Rightarrow> string \<Rightarrow> 'w \<Rightarrow> error option \<times> 'w"

text \<open>The loop over \<open>regoFilePaths\<close> (lines 65-77).\<close>

fun fileLoop ::
  "'w env \<Rightarrow> 'w \<Rightarrow> PolicyCommentBlock list \<Rightarrow> string list \<Rightarrow> failure + PolicyCommentBlock list" where
  "fileLoop E w policyCommentBlocks [] = Inr policyCommentBlocks"
| "fileLoop E w policyCommentBlocks (regoFilePath # regoFilePaths) =
     (case ReadFile E w regoFilePath of
        Inl err \<Rightarrow> Inl (Returned (Errorf ''reading file'' err))
      | Inr policyBytes \<Rightarrow>
          (case getPolicyCommentBlocks (unicodePath E) (Parse E) policyBytes of
             Inl (Returned err) \<Rightarrow> Inl (Returned (Errorf ''get policy comment block'' err))
           | Inl (Panicked p) \<Rightarrow> Inl (Panicked p)
           | Inr policyCommentBlock \<Rightarrow>
               fileLoop E w (policyCommentBlocks @ policyCommentBlock) regoFilePaths))"

text \<open>One pass of the rendering loop (lines 84-86): \<open>fmt.Sprintf("|%s|%s|%s|\n", ...)\<close>.\<close>

definition tableRow :: "PolicyCommentBlock \<Rightarrow> string" where
  "tableRow policyCommentBlock =
     (let apiGroups = Join (APIGroups policyCommentBlock) '', '';
          kinds = Join (Kinds policyCommentBlock) '', ''
      in ''|'' @ apiGroups @ ''|'' @ kinds @ ''|'' @ Description policyCommentBlock
         @ ''|\<newline>'')"

text \<open>The rendering loop (lines 83-87), \<open>policyDocument\<close> as its accumulator.\<close>

fun rowLoop :: "string \<Rightarrow> PolicyCommentBlock list \<Rightarrow> string" where
  "rowLoop policyDocument [] = policyDocument"
| "rowLoop policyDocument (policyCommentBlock # policyCommentBlocks) =
     rowLoop (policyDocument @ tableRow policyCommentBlock) policyCommentBlocks"

text \<open>Lines 79-89: the document built from the collected records.\<close>

definition policyDocumentOf :: "PolicyCommentBlock list \<Rightarrow> string" where
  "policyDocumentOf policyCommentBlocks =
     (let policyDocument = ''# Policies\<newline>\<newline>'';
          policyDocument = policyDocument @ ''|API Groups|Kinds|Description|\<newline>'';
          policyDocument = policyDocument @ ''|---|---|---|\<newline>''
      in rowLoop policyDocument policyCommentBlocks)"

definition getPolicyDocumentation :: "'w env \<Rightarrow> 'w \<Rightarrow> string \<Rightarrow> failure + string" where
  "getPolicyDocumentation E w path =
     (case getRegoFilePaths E w path of
        Inl err \<Rightarrow> Inl (Returned (Errorf ''get rego files'' err))
      | Inr regoFilePaths \<Rightarrow>
          (case fileLoop E w [] regoFilePaths of
             Inl f \<Rightarrow> Inl f
           | Inr policyCommentBlocks \<Rightarrow> Inr (policyDocumentOf policyCommentBlocks)))"

text \<open>
  \<open>runDocCommand\<close> returns its outcome (\<open>None\<close> for the nil error) and the world it
  leaves behind.
\<close>

datatype outcome = Done "error option" | Panic panic

definition runDocCommand :: "'w env \<Rightarrow> 'w \<Rightarrow> string \<Rightarrow> outcome \<times> 'w" where
  "runDocCommand E w path =
     (case getPolicyDocumentation E w path of
        Inl (Returned err) \<Rightarrow> (Done (Some (Errorf ''get policy documentation'' err)), w)
      | Inl (Panicked p) \<Rightarrow> (Panic p, w)
      | Inr policyDocumentation \<Rightarrow>
          (case WriteFile E (filepathJoin E path (viperOutput E)) policyDocumentation w of
             (Some err, w') \<Rightarrow> (Done (Some (Errorf ''writing constraint'' err)), w')
           | (None, w') \<Rightarrow> (Done None, w')))"

subsection \<open>Notions the properties are stated with\<close>

text \<open>
  A list of group names is case-insensitively duplicate-free when no element matches a
  later one under \<open>EqualFold\<close>.
\<close>

fun caseDistinct :: "unicodeFold \<Rightarrow> string list \<Rightarrow> bool" where
  "caseDistinct uf [] = True"
| "caseDistinct uf (x # xs) = ((\<forall>y \<in> set xs. \<not> EqualFold uf x y) \<and> caseDistinct uf xs)"

text \<open>
  The first occurrences of a list: the elements, in order and as written, at the positions
  that no earlier position matches under \<open>EqualFold\<close>.
\<close>

definition firstOccurrences :: "unicodeFold \<Rightarrow> string list \<Rightarrow> string list" where
  "firstOccurrences uf xs =
     map (\<lambda>i. xs ! i)
       (filter (\<lambda>i. \<forall>j < i. \<not> EqualFold uf (xs ! j) (xs ! i)) [0 ..< length xs])"

text \<open>A marker comment is one that the loop takes for an annotation.\<close>

definition isMarker :: "string \<Rightarrow> bool" where
  "isMarker commentText = Contains commentText ''@Kinds''"

text \<open>
  The most recent non-marker comment among the comments seen so far, the empty string
  when there is none.
\<close>

definition precedingDescription :: "string list \<Rightarrow> string" where
  "precedingDescription pre =
     (case rev (filter (\<lambda>c. \<not> isMarker c) pre) of [] \<Rightarrow> [] | c # _ \<Rightarrow> c)"

text \<open>
  The parts of a pair token: what stands before its first \<open>'/'\<close>, what stands after
  its first \<open>'/'\<close>, and of that the part before the next \<open>'/'\<close>.
\<close>

definition beforeSlash :: "string \<Rightarrow> string" where
  "beforeSlash tok = takeWhile (\<lambda>c. c \<noteq> CHR ''/'') tok"

definition afterSlash :: "string \<Rightarrow> string" where
  "afterSlash tok = drop 1 (dropWhile (\<lambda>c. c \<noteq> CHR ''/'') tok)"

definition betweenSlashes :: "string \<Rightarrow> string" where
  "betweenSlashes tok = beforeSlash (afterSlash tok)"

text \<open>The pair tokens of a marker comment: its space-separated tokens after the first two.\<close>

definition pairTokens :: "string \<Rightarrow> string list" where
  "pairTokens commentText = drop 2 (Split commentText (CHR '' ''))"

text \<open>
  A marker comment is well formed when it has at least two tokens and each pair token
  contains a \<open>'/'\<close>.
\<close>

definition wellFormedMarker :: "string \<Rightarrow> bool" where
  "wellFormedMarker commentText =
     (2 \<le> length (Split commentText (CHR '' ''))
      \<and> (\<forall>tok \<in> set (pairTokens commentText). CHR ''/'' \<in> set tok))"

section \<open>EqualFold\<close>

lemma fold_nat_trans:
  fixes x y z :: nat
  assumes "max x y = min x y \<or> (65 \<le> min x y \<and> min x y \<le> 90 \<and> max x y = min x y + 32)"
    and "max y z = min y z \<or> (65 \<le> min y z \<and> min y z \<le> 90 \<and> max y z = min y z + 32)"
  shows "max x z = min x z \<or> (65 \<le> min x z \<and> min x z \<le> 90 \<and> max x z = min x z + 32)"
  using assms by (simp add: min_def max_def split: if_splits) arith+

lemma foldEq_trans:
  assumes "foldEq a b" "foldEq b c"
  shows "foldEq a c"
  using assms unfolding foldEq_def Let_def by (rule fold_nat_trans)

text \<open>On ASCII text the result of \<open>EqualFold\<close> does not depend on its Unicode part.\<close>

lemma EqualFold_ascii:
  assumes "\<forall>c \<in> set s. (of_char c :: nat) < 128" and "\<forall>c \<in> set t. (of_char c :: nat) < 128"
  shows "EqualFold uf s t = EqualFold uf' s t"
  using assms by (induction uf s t rule: EqualFold.induct) auto

text \<open>
  Beyond ASCII the model decides nothing by itself: whether \<open>k\<close> and the Kelvin sign
  (U+212A, in UTF-8 the bytes E2 84 AA) are one group is what the Unicode part says.
\<close>

lemma getDedupedGroups_kelvin:
  "getDedupedGroups uf [''k'', [CHR 0xE2, CHR 0x84, CHR 0xAA]]
     = (if uf ''k'' [CHR 0xE2, CHR 0x84, CHR 0xAA] then [''k'']
        else [''k'', [CHR 0xE2, CHR 0x84, CHR 0xAA]])"
  by (simp add: getDedupedGroups_def)

text \<open>
  With the stand-in, \<open>EqualFold\<close> is transitive: this is the instance at which the
  hypothesis of the theorem on first occurrences is discharged.
\<close>

lemma EqualFold_asciiText_trans:
  "EqualFold asciiText s t \<Longrightarrow> EqualFold asciiText t u \<Longrightarrow> EqualFold asciiText s u"
proof (induction asciiText s t arbitrary: u rule: EqualFold.induct)
  case (2 s ss t ts)
  then show ?case
    by (cases u) (auto simp: asciiText_def split: if_splits dest: foldEq_trans)
qed auto

section \<open>getDedupedGroups\<close>

lemma contains_iff: "contains uf groups g \<longleftrightarrow> (\<exists>c \<in> set groups. EqualFold uf c g)"
  by (induction groups) auto

lemma caseDistinct_snoc:
  "caseDistinct uf (xs @ [x]) \<longleftrightarrow> caseDistinct uf xs \<and> (\<forall>c \<in> set xs. \<not> EqualFold uf c x)"
  by (induction xs) auto

lemma caseDistinct_append_left: "caseDistinct uf (xs @ ys) \<Longrightarrow> caseDistinct uf xs"
  by (induction xs) auto

lemma dedupLoop_snoc:
  "dedupLoop uf acc (xs @ [x]) =
     (if contains uf (dedupLoop uf acc xs) x then dedupLoop uf acc xs
      else dedupLoop uf acc xs @ [x])"
  by (induction xs arbitrary: acc) auto

lemma dedupLoop_distinct_id:
  "caseDistinct uf (acc @ xs) \<Longrightarrow> dedupLoop uf acc xs = acc @ xs"
proof (induction xs arbitrary: acc)
  case Nil
  then show ?case by simp
next
  case (Cons x xs)
  have d: "caseDistinct uf ((acc @ [x]) @ xs)" using Cons.prems by simp
  then have "caseDistinct uf (acc @ [x])" by (rule caseDistinct_append_left)
  then have "\<not> contains uf acc x" by (simp add: caseDistinct_snoc contains_iff)
  then show ?case using Cons.IH [OF d] by simp
qed

lemma dedupLoop_caseDistinct:
  "caseDistinct uf acc \<Longrightarrow> caseDistinct uf (dedupLoop uf acc xs)"
  by (induction xs arbitrary: acc) (auto simp: caseDistinct_snoc contains_iff)

text \<open>
  What the accumulator matches when the comparison is transitive: whatever the initial
  accumulator or some element seen so far matches.
\<close>

lemma contains_dedupLoop:
  assumes trans: "\<And>s t u. EqualFold uf s t \<Longrightarrow> EqualFold uf t u \<Longrightarrow> EqualFold uf s u"
  shows "contains uf (dedupLoop uf acc xs) g
         \<longleftrightarrow> contains uf acc g \<or> (\<exists>y \<in> set xs. EqualFold uf y g)"
proof (induction xs rule: rev_induct)
  case Nil
  then show ?case by simp
next
  case (snoc x xs)
  show ?case
  proof (cases "contains uf (dedupLoop uf acc xs) x")
    case True
    then obtain c where c: "c \<in> set (dedupLoop uf acc xs)" "EqualFold uf c x"
      by (auto simp: contains_iff)
    have "EqualFold uf x g \<Longrightarrow> contains uf (dedupLoop uf acc xs) g"
      using c trans by (auto simp: contains_iff)
    then show ?thesis using True snoc.IH by (auto simp: dedupLoop_snoc)
  next
    case False
    then show ?thesis using snoc.IH by (auto simp: dedupLoop_snoc contains_iff)
  qed
qed

lemma getDedupedGroups_snoc:
  assumes "\<And>s t u. EqualFold uf s t \<Longrightarrow> EqualFold uf t u \<Longrightarrow> EqualFold uf s u"
  shows "getDedupedGroups uf (xs @ [x]) =
     (if \<exists>y \<in> set xs. EqualFold uf y x then getDedupedGroups uf xs
      else getDedupedGroups uf xs @ [x])"
  by (simp add: getDedupedGroups_def dedupLoop_snoc contains_dedupLoop [OF assms])

lemma firstOccurrences_snoc:
  "firstOccurrences uf (xs @ [x]) =
     (if \<exists>y \<in> set xs. EqualFold uf y x then firstOccurrences uf xs
      else firstOccurrences uf xs @ [x])"
proof -
  let ?n = "length xs"
  let ?P = "\<lambda>zs i. \<forall>j < i. \<not> EqualFold uf (zs ! j) (zs ! i)"
  have f: "filter (?P (xs @ [x])) [0 ..< ?n] = filter (?P xs) [0 ..< ?n]"
    by (rule filter_cong) (auto simp: nth_append)
  have m: "map (\<lambda>i. (xs @ [x]) ! i) (filter (?P xs) [0 ..< ?n])
           = map (\<lambda>i. xs ! i) (filter (?P xs) [0 ..< ?n])"
    by (rule map_cong) (auto simp: nth_append)
  have "(\<forall>j < ?n. \<not> EqualFold uf (xs ! j) x) \<longleftrightarrow> \<not> (\<exists>y \<in> set xs. EqualFold uf y x)"
    by (metis in_set_conv_nth)
  then have l: "?P (xs @ [x]) ?n \<longleftrightarrow> \<not> (\<exists>y \<in> set xs. EqualFold uf y x)"
    by (simp add: nth_append)
  show ?thesis
    unfolding firstOccurrences_def using f m l by simp
qed

text \<open>
  Claim C5. Deduplication is idempotent, whatever \<open>strings.EqualFold\<close> does beyond ASCII
  (the theorem is for every Unicode part \<open>uf\<close>, and its proof uses nothing of the
  comparison): a list of group names in which no element matches a later one comes back
  unchanged (same elements, order and casing), and deduplicating a deduplicated list
  changes nothing, for every list.
\<close>

theorem getDedupedGroups_idempotent:
  "(caseDistinct uf xs \<longrightarrow> getDedupedGroups uf xs = xs)
   \<and> getDedupedGroups uf (getDedupedGroups uf xs) = getDedupedGroups uf xs"
proof -
  have unchanged: "caseDistinct uf ys \<Longrightarrow> getDedupedGroups uf ys = ys" for ys
    using dedupLoop_distinct_id [of uf "[]" ys] by (simp add: getDedupedGroups_def)
  have "caseDistinct uf (getDedupedGroups uf xs)"
    unfolding getDedupedGroups_def by (rule dedupLoop_caseDistinct) simp
  then show ?thesis using unchanged by blast
qed

theorem getDedupedGroups_idempotent_witness:
  "caseDistinct asciiText [''apps'', ''core'', ''Batch'']
   \<and> getDedupedGroups asciiText [''apps'', ''core'', ''Batch''] = [''apps'', ''core'', ''Batch'']
   \<and> getDedupedGroups asciiText (getDedupedGroups asciiText [''apps'', ''Core'', ''APPS'', ''core''])
       = getDedupedGroups asciiText [''apps'', ''Core'', ''APPS'', ''core'']"
proof -
  have d: "caseDistinct asciiText [''apps'', ''core'', ''Batch'']"
    by (simp add: foldEq_def)
  note a = getDedupedGroups_idempotent [of asciiText "[''apps'', ''core'', ''Batch'']",
      THEN conjunct1, THEN mp, OF d]
  note b = getDedupedGroups_idempotent [of asciiText "[''apps'', ''Core'', ''APPS'', ''core'']",
      THEN conjunct2]
  show ?thesis by (intro conjI d a b)
qed

text \<open>
  Claim C6. Deduplication keeps exactly the first occurrence of each class of group names
  equal up to case, in first-seen order and with the first-seen casing: an element stays
  if and only if no earlier element of the input matches it. Classes presuppose that the
  comparison is transitive, which is the hypothesis on \<open>strings.EqualFold\<close> here; the
  statement is for every Unicode part \<open>uf\<close> that makes it so. In particular
  \<open>["apps", "Apps", "APPS"]\<close> becomes \<open>["apps"]\<close>, whatever the Unicode part.
\<close>

theorem getDedupedGroups_first_occurrences:
  "((\<forall>s t u. EqualFold uf s t \<longrightarrow> EqualFold uf t u \<longrightarrow> EqualFold uf s u) \<longrightarrow>
      getDedupedGroups uf xs = firstOccurrences uf xs)
   \<and> getDedupedGroups uf' [''apps'', ''Apps'', ''APPS''] = [''apps'']"
proof (intro conjI impI)
  assume "\<forall>s t u. EqualFold uf s t \<longrightarrow> EqualFold uf t u \<longrightarrow> EqualFold uf s u"
  then have trans: "\<And>s t u. EqualFold uf s t \<Longrightarrow> EqualFold uf t u \<Longrightarrow> EqualFold uf s u"
    by blast
  show "getDedupedGroups uf xs = firstOccurrences uf xs"
  proof (induction xs rule: rev_induct)
    case Nil
    show ?case by (simp add: getDedupedGroups_def firstOccurrences_def)
  next
    case (snoc x xs)
    then show ?case by (simp only: getDedupedGroups_snoc [OF trans] firstOccurrences_snoc)
  qed
next
  show "getDedupedGroups uf' [''apps'', ''Apps'', ''APPS''] = [''apps'']"
    by (simp add: getDedupedGroups_def foldEq_def)
qed

theorem getDedupedGroups_first_occurrences_witness:
  "getDedupedGroups asciiText [''apps'', ''Core'', ''APPS'', ''core'']
     = firstOccurrences asciiText [''apps'', ''Core'', ''APPS'', ''core'']
   \<and> firstOccurrences asciiText [''apps'', ''Core'', ''APPS'', ''core''] = [''apps'', ''Core'']"
proof -
  have t: "\<forall>s t u. EqualFold asciiText s t \<longrightarrow> EqualFold asciiText t u \<longrightarrow> EqualFold asciiText s u"
    using EqualFold_asciiText_trans by blast
  note r = getDedupedGroups_first_occurrences [of asciiText "[''apps'', ''Core'', ''APPS'', ''core'']",
      THEN conjunct1, THEN mp, OF t]
  have run: "getDedupedGroups asciiText [''apps'', ''Core'', ''APPS'', ''core''] = [''apps'', ''Core'']"
    by (simp add: getDedupedGroups_def foldEq_def)
  have "firstOccurrences asciiText [''apps'', ''Core'', ''APPS'', ''core''] = [''apps'', ''Core'']"
    using r run by (simp only:)
  with r show ?thesis by (intro conjI)
qed

section \<open>Split and the pair tokens\<close>

lemma Split_unfold:
  "Split s sep = takeWhile (\<lambda>c. c \<noteq> sep) s
     # (if sep \<in> set s then Split (drop 1 (dropWhile (\<lambda>c. c \<noteq> sep) s)) sep else [])"
  by (induction s) auto

lemma Split_not_Nil: "Split s sep \<noteq> []"
  by (subst Split_unfold) simp

lemma length_Split: "length (Split s sep) < 2 \<longleftrightarrow> sep \<notin> set s"
proof (cases "sep \<in> set s")
  case True
  have "Split (drop 1 (dropWhile (\<lambda>c. c \<noteq> sep) s)) sep \<noteq> []" by (rule Split_not_Nil)
  then have "0 < length (Split (drop 1 (dropWhile (\<lambda>c. c \<noteq> sep) s)) sep)" by simp
  with True show ?thesis by (subst Split_unfold) simp
next
  case False
  then show ?thesis by (subst Split_unfold) simp
qed

lemma Split_nth_0: "Split s sep ! 0 = takeWhile (\<lambda>c. c \<noteq> sep) s"
  by (subst Split_unfold) simp

lemma Split_nth_1:
  assumes "sep \<in> set s"
  shows "Split s sep ! Suc 0 = takeWhile (\<lambda>c. c \<noteq> sep) (drop 1 (dropWhile (\<lambda>c. c \<noteq> sep) s))"
proof -
  have "Split s sep ! Suc 0 = Split (drop 1 (dropWhile (\<lambda>c. c \<noteq> sep) s)) sep ! 0"
    using assms by (subst Split_unfold) simp
  then show ?thesis by (simp only: Split_nth_0)
qed

lemma kindGroupLoop_eq:
  "kindGroupLoop apiGroups kinds toks =
     (if \<forall>tok \<in> set toks. CHR ''/'' \<in> set tok
      then Inr (apiGroups @ map beforeSlash toks, kinds @ map betweenSlashes toks)
      else Inl (Panicked IndexOutOfRange))"
proof (induction toks arbitrary: apiGroups kinds)
  case Nil
  show ?case by simp
next
  case (Cons tok toks)
  show ?case
  proof (cases "CHR ''/'' \<in> set tok")
    case True
    then have "\<not> length (Split tok (CHR ''/'')) < 2" by (simp add: length_Split)
    moreover have "Split tok (CHR ''/'') ! 1 = betweenSlashes tok"
      using True by (simp add: Split_nth_1 betweenSlashes_def beforeSlash_def afterSlash_def)
    moreover have "Split tok (CHR ''/'') ! 0 = beforeSlash tok"
      by (simp add: Split_nth_0 beforeSlash_def)
    ultimately show ?thesis using True Cons.IH by (simp add: Let_def)
  next
    case False
    then have "length (Split tok (CHR ''/'')) < 2" by (simp add: length_Split)
    then show ?thesis using False by (simp add: Let_def)
  qed
qed

lemma kindsBlock_eq:
  "kindsBlock uf description commentText =
     (if length (Split commentText (CHR '' '')) < 2 then Inl (Panicked SliceBoundsOutOfRange)
      else if \<forall>tok \<in> set (pairTokens commentText). CHR ''/'' \<in> set tok
      then Inr \<lparr>APIGroups = getDedupedGroups uf (map beforeSlash (pairTokens commentText)),
                Kinds = map betweenSlashes (pairTokens commentText),
                Description = Trim description '' ''\<rparr>
      else Inl (Panicked IndexOutOfRange))"
  by (simp add: kindsBlock_def Let_def kindGroupLoop_eq pairTokens_def)

lemma kindsBlock_Inr_iff: "(\<exists>b. kindsBlock uf d c = Inr b) \<longleftrightarrow> wellFormedMarker c"
  by (auto simp: kindsBlock_eq wellFormedMarker_def)

lemma kindsBlock_Inl: "kindsBlock uf d c = Inl f \<Longrightarrow> \<exists>p. f = Panicked p"
  by (auto simp: kindsBlock_eq split: if_splits)

lemma kindsBlock_Description: "kindsBlock uf d c = Inr b \<Longrightarrow> Description b = Trim d '' ''"
  by (auto simp: kindsBlock_eq split: if_splits)

lemma commentLoop_append:
  "commentLoop uf d bs (xs @ ys) =
     (case commentLoop uf d bs xs of
        Inl f \<Rightarrow> Inl f
      | Inr bs' \<Rightarrow> commentLoop uf (last (d # filter (\<lambda>c. \<not> isMarker c) xs)) bs' ys)"
  by (induction xs arbitrary: d bs) (auto simp: isMarker_def split: sum.splits)

lemma commentLoop_Inr:
  "commentLoop uf d bs xs = Inr out \<Longrightarrow>
     \<exists>new. out = bs @ new \<and> length new = length (filter isMarker xs)"
proof (induction xs arbitrary: d bs)
  case Nil
  then show ?case by simp
next
  case (Cons x xs)
  show ?case
  proof (cases "isMarker x")
    case True
    with Cons.prems obtain b where b: "kindsBlock uf d x = Inr b"
      and rest: "commentLoop uf d (bs @ [b]) xs = Inr out"
      by (auto simp: isMarker_def split: sum.splits)
    from Cons.IH [OF rest] obtain new where "out = (bs @ [b]) @ new"
      "length new = length (filter isMarker xs)" by blast
    then have "out = bs @ (b # new) \<and> length (b # new) = length (filter isMarker (x # xs))"
      using True by simp
    then show ?thesis by blast
  next
    case False
    with Cons.prems have "commentLoop uf x bs xs = Inr out" by (simp add: isMarker_def)
    from Cons.IH [OF this] show ?thesis using False by simp
  qed
qed

lemma commentLoop_Inl: "commentLoop uf d bs xs = Inl f \<Longrightarrow> \<exists>p. f = Panicked p"
  by (induction xs arbitrary: d bs) (auto split: if_splits sum.splits dest: kindsBlock_Inl)

lemma commentLoop_Inr_iff:
  "(\<exists>out. commentLoop uf d bs xs = Inr out) \<longleftrightarrow> (\<forall>c \<in> set xs. isMarker c \<longrightarrow> wellFormedMarker c)"
proof (induction xs arbitrary: d bs)
  case Nil
  show ?case by simp
next
  case (Cons x xs)
  show ?case
  proof (cases "isMarker x")
    case True
    show ?thesis
    proof (cases "kindsBlock uf d x")
      case (Inl f)
      then have "\<not> wellFormedMarker x" using kindsBlock_Inr_iff [of uf d x] by simp
      then show ?thesis using True Inl by (simp add: isMarker_def)
    next
      case (Inr b)
      then have "wellFormedMarker x" using kindsBlock_Inr_iff [of uf d x] by blast
      then show ?thesis using True Inr Cons.IH [of d "bs @ [b]"] by (simp add: isMarker_def)
    qed 
  next
    case False
    then show ?thesis using Cons.IH [of x bs] by (simp add: isMarker_def)
  qed
qed

lemma last_filter_preceding:
  "last ([] # filter (\<lambda>c. \<not> isMarker c) pre) = precedingDescription pre"
  by (cases "filter (\<lambda>c. \<not> isMarker c) pre" rule: rev_cases)
     (simp_all add: precedingDescription_def)

lemma commentLoop_marker:
  assumes run: "commentLoop uf [] [] (pre @ m # post) = Inr out"
    and m: "isMarker m"
  shows "length (filter isMarker pre) < length out
         \<and> kindsBlock uf (precedingDescription pre) m = Inr (out ! length (filter isMarker pre))"
proof -
  let ?d = "precedingDescription pre"
  from run have "(case commentLoop uf [] [] pre of Inl f \<Rightarrow> Inl f
                   | Inr bs' \<Rightarrow> commentLoop uf ?d bs' (m # post)) = Inr out"
    unfolding commentLoop_append last_filter_preceding .
  then obtain bs where pre: "commentLoop uf [] [] pre = Inr bs"
    and rest: "commentLoop uf ?d bs (m # post) = Inr out"
    by (cases "commentLoop uf [] [] pre") (simp_all del: commentLoop.simps)
  from commentLoop_Inr [OF pre] have len: "length bs = length (filter isMarker pre)" by auto
  from rest m have "(case kindsBlock uf ?d m of Inl f \<Rightarrow> Inl f
                     | Inr b \<Rightarrow> commentLoop uf ?d (bs @ [b]) post) = Inr out"
    by (simp add: isMarker_def)
  then obtain b where b: "kindsBlock uf ?d m = Inr b"
    and post: "commentLoop uf ?d (bs @ [b]) post = Inr out"
    by (cases "kindsBlock uf ?d m") simp_all
  from commentLoop_Inr [OF post] obtain new where "out = (bs @ [b]) @ new" by blast
  then have "out ! length bs = b" "length bs < length out" by simp_all
  with b len show ?thesis by simp
qed

lemma getPolicyCommentBlocks_ok:
  "parse policy = (comments, []) \<Longrightarrow> getPolicyCommentBlocks uf parse policy = commentLoop uf [] [] comments"
  by (simp add: getPolicyCommentBlocks_def)

lemma precedingDescription_markers:
  "\<forall>c \<in> set ms. isMarker c \<Longrightarrow> precedingDescription (pre @ ms) = precedingDescription pre"
  by (simp add: precedingDescription_def)

lemma Trim_Nil: "Trim [] cutset = []"
  by (simp add: Trim_def TrimLeft_def TrimRight_def)

lemma beforeSlash_afterSlash:
  assumes "CHR ''/'' \<in> set tok"
  shows "tok = beforeSlash tok @ ''/'' @ afterSlash tok"
proof -
  let ?P = "\<lambda>c. c \<noteq> CHR ''/''"
  from assms have "dropWhile ?P tok \<noteq> []" by simp
  then obtain r where r: "dropWhile ?P tok = hd (dropWhile ?P tok) # r"
    by (cases "dropWhile ?P tok") simp_all
  have "\<not> ?P (hd (dropWhile ?P tok))"
    using \<open>dropWhile ?P tok \<noteq> []\<close> by (rule hd_dropWhile)
  with r have d: "dropWhile ?P tok = CHR ''/'' # r" by simp
  have "tok = takeWhile ?P tok @ dropWhile ?P tok" by simp
  then show ?thesis unfolding beforeSlash_def afterSlash_def d by simp
qed

lemma beforeSlash_no_slash: "CHR ''/'' \<notin> set (beforeSlash tok)"
  unfolding beforeSlash_def by (auto dest: set_takeWhileD)

lemma afterSlash_betweenSlashes:
  "afterSlash tok = betweenSlashes tok
   \<or> (\<exists>rest. afterSlash tok = betweenSlashes tok @ ''/'' @ rest)"
proof (cases "CHR ''/'' \<in> set (afterSlash tok)")
  case True
  from beforeSlash_afterSlash [OF True] show ?thesis
    unfolding betweenSlashes_def by blast
next
  case False
  then have "takeWhile (\<lambda>c. c \<noteq> CHR ''/'') (afterSlash tok) = afterSlash tok"
    by auto
  then have "afterSlash tok = betweenSlashes tok"
    by (simp only: betweenSlashes_def beforeSlash_def)
  then show ?thesis by (rule disjI1)
qed

lemma replicate_takeWhile_eq:
  "takeWhile (\<lambda>c. c \<in> set [x]) s = replicate (length (takeWhile (\<lambda>c. c \<in> set [x]) s)) x"
proof -
  have "\<forall>y \<in> set (takeWhile (\<lambda>c. c \<in> set [x]) s). y = x"
    by (auto dest: set_takeWhileD)
  then show ?thesis by (simp add: replicate_length_same)
qed

lemma Trim_spaces:
  "\<exists>n k. s = replicate n x @ Trim s [x] @ replicate k x"
proof -
  let ?P = "\<lambda>c. c \<in> set [x]"
  let ?r = "TrimRight s [x]"
  have "s = rev (dropWhile ?P (rev s)) @ rev (takeWhile ?P (rev s))"
    by (metis rev_append rev_rev_ident takeWhile_dropWhile_id)
  then have s: "s = ?r @ rev (takeWhile ?P (rev s))" by (simp only: TrimRight_def)
  have r: "?r = takeWhile ?P ?r @ Trim s [x]" by (simp add: Trim_def TrimLeft_def)
  have a: "takeWhile ?P ?r = replicate (length (takeWhile ?P ?r)) x"
    by (rule replicate_takeWhile_eq)
  have "takeWhile ?P (rev s) = replicate (length (takeWhile ?P (rev s))) x"
    by (rule replicate_takeWhile_eq)
  then have "rev (takeWhile ?P (rev s)) = rev (replicate (length (takeWhile ?P (rev s))) x)"
    by (simp only:)
  then have b: "rev (takeWhile ?P (rev s)) = replicate (length (takeWhile ?P (rev s))) x"
    by simp
  have "s = replicate (length (takeWhile ?P ?r)) x @ Trim s [x]
            @ replicate (length (takeWhile ?P (rev s))) x"
    using s r a b by (metis append.assoc)
  then show ?thesis by blast
qed

lemma last_dropWhile_ne: "dropWhile P xs \<noteq> [] \<Longrightarrow> last (dropWhile P xs) = last xs"
  by (induction xs) auto

lemma Trim_ends:
  assumes "Trim s cutset \<noteq> []"
  shows "hd (Trim s cutset) \<notin> set cutset \<and> last (Trim s cutset) \<notin> set cutset"
proof -
  let ?P = "\<lambda>c. c \<in> set cutset"
  let ?r = "TrimRight s cutset"
  have t: "Trim s cutset = dropWhile ?P ?r" by (simp add: Trim_def TrimLeft_def)
  with assms have ne: "dropWhile ?P ?r \<noteq> []" by simp
  then have h: "\<not> ?P (hd (dropWhile ?P ?r))" by (rule hd_dropWhile)
  from ne have rne: "?r \<noteq> []" by auto
  then have dne: "dropWhile ?P (rev s) \<noteq> []" by (simp add: TrimRight_def)
  have "last (dropWhile ?P ?r) = last ?r" using ne by (rule last_dropWhile_ne)
  also have "\<dots> = hd (dropWhile ?P (rev s))" using dne by (simp add: TrimRight_def last_rev)
  finally have "last (Trim s cutset) = hd (dropWhile ?P (rev s))" by (simp add: t)
  moreover have "\<not> ?P (hd (dropWhile ?P (rev s)))" using dne by (rule hd_dropWhile)
  ultimately show ?thesis using h t by simp
qed

lemma Trim_id:
  assumes "s \<noteq> []" "hd s \<notin> set cutset" "last s \<notin> set cutset"
  shows "Trim s cutset = s"
proof -
  have "rev s \<noteq> []" "hd (rev s) \<notin> set cutset" using assms by (simp_all add: hd_rev)
  then have "dropWhile (\<lambda>c. c \<in> set cutset) (rev s) = rev s" by (cases "rev s") simp_all
  then have "TrimRight s cutset = s" by (simp add: TrimRight_def)
  moreover have "dropWhile (\<lambda>c. c \<in> set cutset) s = s" using assms by (cases s) simp_all
  ultimately show ?thesis by (simp add: Trim_def TrimLeft_def)
qed


section \<open>The records of getPolicyCommentBlocks\<close>

lemma marker_record:
  assumes "parse policy = (pre @ m # post, [])"
    and "isMarker m"
    and "getPolicyCommentBlocks uf parse policy = Inr out"
  shows "length (filter isMarker pre) < length out"
    and "kindsBlock uf (precedingDescription pre) m = Inr (out ! length (filter isMarker pre))"
  using assms commentLoop_marker [of uf pre m post out]
  by (simp_all add: getPolicyCommentBlocks_ok)

text \<open>
  Claim C2. Each marker comment's record takes as its description the most recently seen
  non-marker comment, trimmed of spaces; a marker with no non-marker comment before it gets
  the empty description. For \<open>["desc A", "@Kinds g/K", "desc B", "@Kinds g2/K2"]\<close> the
  descriptions are \<open>"desc A"\<close> and \<open>"desc B"\<close>. The record of the marker \<open>m\<close> is the one
  at the index that counts the markers before it.
\<close>

theorem description_association:
  "(parse policy = (pre @ m # post, []) \<longrightarrow> isMarker m \<longrightarrow>
      getPolicyCommentBlocks uf parse policy = Inr out \<longrightarrow>
        length (filter isMarker pre) < length out
        \<and> Description (out ! length (filter isMarker pre)) = Trim (precedingDescription pre) '' ''
        \<and> ((\<forall>c \<in> set pre. isMarker c) \<longrightarrow> Description (out ! length (filter isMarker pre)) = []))
   \<and> getPolicyCommentBlocks uf (parsed [''desc A'', ''@Kinds g/K'', ''desc B'', ''@Kinds g2/K2'']) src
       = Inr [\<lparr>APIGroups = [], Kinds = [], Description = ''desc A''\<rparr>,
              \<lparr>APIGroups = [], Kinds = [], Description = ''desc B''\<rparr>]"
proof (intro conjI impI)
  assume a: "parse policy = (pre @ m # post, [])" "isMarker m"
    "getPolicyCommentBlocks uf parse policy = Inr out"
  let ?b = "out ! length (filter isMarker pre)"
  show "length (filter isMarker pre) < length out" using a by (rule marker_record)
  have "kindsBlock uf (precedingDescription pre) m = Inr ?b" using a by (rule marker_record)
  then show d: "Description ?b = Trim (precedingDescription pre) '' ''"
    by (rule kindsBlock_Description)
  assume "\<forall>c \<in> set pre. isMarker c"
  then have "precedingDescription ([] @ pre) = precedingDescription []"
    by (rule precedingDescription_markers)
  then have "precedingDescription pre = []" by (simp add: precedingDescription_def)
  with d show "Description ?b = []" by (simp add: Trim_Nil)
next
  show "getPolicyCommentBlocks uf (parsed [''desc A'', ''@Kinds g/K'', ''desc B'', ''@Kinds g2/K2'']) src
       = Inr [\<lparr>APIGroups = [], Kinds = [], Description = ''desc A''\<rparr>,
              \<lparr>APIGroups = [], Kinds = [], Description = ''desc B''\<rparr>]"
    by (simp add: getPolicyCommentBlocks_def parsed_def kindsBlock_def getDedupedGroups_def
        Trim_def TrimLeft_def TrimRight_def)
qed

theorem description_association_witness:
  "parsed ['' allow only some kinds '', '' @Kinds apps/Deployment'', '' second'', '' @Kinds core/Pod''] ''''
     = (['' allow only some kinds '', '' @Kinds apps/Deployment'', '' second''] @ '' @Kinds core/Pod'' # [], [])
   \<and> isMarker '' @Kinds core/Pod''
   \<and> getPolicyCommentBlocks asciiText
        (parsed ['' allow only some kinds '', '' @Kinds apps/Deployment'', '' second'', '' @Kinds core/Pod'']) ''''
       = Inr [\<lparr>APIGroups = [''apps''], Kinds = [''Deployment''], Description = ''allow only some kinds''\<rparr>,
              \<lparr>APIGroups = [''core''], Kinds = [''Pod''], Description = ''second''\<rparr>]
   \<and> Description ([\<lparr>APIGroups = [''apps''], Kinds = [''Deployment''], Description = ''allow only some kinds''\<rparr>,
              \<lparr>APIGroups = [''core''], Kinds = [''Pod''], Description = ''second''\<rparr>] ! 1)
       = Trim (precedingDescription ['' allow only some kinds '', '' @Kinds apps/Deployment'', '' second'']) '' ''"
proof -
  let ?cs = "['' allow only some kinds '', '' @Kinds apps/Deployment'', '' second'', '' @Kinds core/Pod'']"
  let ?out = "[\<lparr>APIGroups = [''apps''], Kinds = [''Deployment''], Description = ''allow only some kinds''\<rparr>,
              \<lparr>APIGroups = [''core''], Kinds = [''Pod''], Description = ''second''\<rparr>]"
  have h1: "parsed ?cs '''' = (['' allow only some kinds '', '' @Kinds apps/Deployment'', '' second''] @ '' @Kinds core/Pod'' # [], [])"
    by (simp add: parsed_def)
  have h2: "isMarker '' @Kinds core/Pod''" by (simp add: isMarker_def)
  have h3: "getPolicyCommentBlocks asciiText (parsed ?cs) '''' = Inr ?out"
    by (simp add: getPolicyCommentBlocks_def parsed_def kindsBlock_def getDedupedGroups_def
        Trim_def TrimLeft_def TrimRight_def foldEq_def)
  have m: "length (filter isMarker ['' allow only some kinds '', '' @Kinds apps/Deployment'', '' second'']) = 1"
    by (simp add: isMarker_def)
  from description_association [where uf = asciiText and parse = "parsed ?cs" and policy = "''''"
      and pre = "['' allow only some kinds '', '' @Kinds apps/Deployment'', '' second'']"
      and m = "'' @Kinds core/Pod''" and post = "[]" and out = ?out] h1 h2 h3
  have "Description (?out ! length (filter isMarker ['' allow only some kinds '', '' @Kinds apps/Deployment'', '' second'']))
        = Trim (precedingDescription ['' allow only some kinds '', '' @Kinds apps/Deployment'', '' second'']) '' ''"
    by blast
  then have "Description (?out ! 1) = Trim (precedingDescription ['' allow only some kinds '', '' @Kinds apps/Deployment'', '' second'']) '' ''"
    by (simp only: m)
  with h1 h2 h3 show ?thesis by (simp only: simp_thms)
qed

text \<open>
  Claim C1, as stated, fails: the loop never clears \<open>description\<close>, so a marker that
  directly follows another marker gets the same description again, not the empty one.
\<close>

theorem repeated_marker_counterexample:
  "getPolicyCommentBlocks asciiText (parsed ['' desc A'', '' @Kinds a/B'', '' @Kinds c/D'']) ''''
     = Inr [\<lparr>APIGroups = [''a''], Kinds = [''B''], Description = ''desc A''\<rparr>,
            \<lparr>APIGroups = [''c''], Kinds = [''D''], Description = ''desc A''\<rparr>]
   \<and> Description \<lparr>APIGroups = [''c''], Kinds = [''D''], Description = ''desc A''\<rparr> \<noteq> ''''"
  by (simp add: getPolicyCommentBlocks_def parsed_def kindsBlock_def getDedupedGroups_def
      Trim_def TrimLeft_def TrimRight_def foldEq_def)

text \<open>
  Claim C1, amended. When two marker comments occur with no non-marker comment between
  them, the record built for the second has the same description as the record built for
  the first: the most recent non-marker comment before them, trimmed of spaces (the empty
  string when no non-marker comment precedes them).
\<close>

theorem repeated_marker_description:
  assumes "parse policy = (pre @ m1 # m2 # post, [])"
    and "isMarker m1" and "isMarker m2"
    and "getPolicyCommentBlocks uf parse policy = Inr out"
  shows "Suc (length (filter isMarker pre)) < length out
         \<and> Description (out ! Suc (length (filter isMarker pre)))
             = Description (out ! length (filter isMarker pre))
         \<and> Description (out ! Suc (length (filter isMarker pre)))
             = Trim (precedingDescription pre) '' ''"
proof -
  let ?k = "length (filter isMarker pre)"
  have first: "kindsBlock uf (precedingDescription pre) m1 = Inr (out ! ?k)"
    using assms(1,2,4) by (rule marker_record)
  have p: "parse policy = ((pre @ [m1]) @ m2 # post, [])" using assms(1) by simp
  have k: "length (filter isMarker (pre @ [m1])) = Suc ?k" using assms(2) by simp
  have d: "precedingDescription (pre @ [m1]) = precedingDescription pre"
    using assms(2) by (intro precedingDescription_markers) simp
  have "length (filter isMarker (pre @ [m1])) < length out"
    using p assms(3,4) by (rule marker_record)
  then have len: "Suc ?k < length out" by (simp only: k)
  have "kindsBlock uf (precedingDescription (pre @ [m1])) m2
        = Inr (out ! length (filter isMarker (pre @ [m1])))"
    using p assms(3,4) by (rule marker_record)
  then have second: "kindsBlock uf (precedingDescription pre) m2 = Inr (out ! Suc ?k)"
    by (simp only: k d)
  from first second len show ?thesis by (simp add: kindsBlock_Description)
qed

theorem repeated_marker_description_witness:
  "parsed ['' desc A'', '' @Kinds a/B'', '' @Kinds c/D''] ''''
     = (['' desc A''] @ '' @Kinds a/B'' # '' @Kinds c/D'' # [], [])
   \<and> isMarker '' @Kinds a/B'' \<and> isMarker '' @Kinds c/D''
   \<and> getPolicyCommentBlocks asciiText (parsed ['' desc A'', '' @Kinds a/B'', '' @Kinds c/D'']) ''''
       = Inr [\<lparr>APIGroups = [''a''], Kinds = [''B''], Description = ''desc A''\<rparr>,
              \<lparr>APIGroups = [''c''], Kinds = [''D''], Description = ''desc A''\<rparr>]
   \<and> Description ([\<lparr>APIGroups = [''a''], Kinds = [''B''], Description = ''desc A''\<rparr>,
              \<lparr>APIGroups = [''c''], Kinds = [''D''], Description = ''desc A''\<rparr>]
                       ! Suc (length (filter isMarker ['' desc A''])))
       = Trim (precedingDescription ['' desc A'']) '' ''"
proof -
  let ?cs = "['' desc A'', '' @Kinds a/B'', '' @Kinds c/D'']"
  let ?out = "[\<lparr>APIGroups = [''a''], Kinds = [''B''], Description = ''desc A''\<rparr>,
              \<lparr>APIGroups = [''c''], Kinds = [''D''], Description = ''desc A''\<rparr>]"
  have h1: "parsed ?cs '''' = (['' desc A''] @ '' @Kinds a/B'' # '' @Kinds c/D'' # [], [])"
    by (simp add: parsed_def)
  have h2: "isMarker '' @Kinds a/B''" and h3: "isMarker '' @Kinds c/D''"
    by (simp_all add: isMarker_def)
  have h4: "getPolicyCommentBlocks asciiText (parsed ?cs) '''' = Inr ?out"
    by (simp add: getPolicyCommentBlocks_def parsed_def kindsBlock_def getDedupedGroups_def
        Trim_def TrimLeft_def TrimRight_def foldEq_def)
  note r = repeated_marker_description [OF h1 h2 h3 h4]
  show ?thesis
    by (intro conjI h1 h2 h3 h4 r [THEN conjunct2, THEN conjunct2])
qed

text \<open>
  Claim C3, as stated, fails: \<open>strings.Split(kindGroup, "/")\<close> cuts at every \<open>'/'\<close> and
  the source takes element 1, so the token \<open>a/b/c\<close> contributes the kind \<open>b\<close>, not
  \<open>b/c\<close>.
\<close>

theorem pair_kind_counterexample:
  "getPolicyCommentBlocks asciiText (parsed ['' @Kinds a/b/c'']) ''''
     = Inr [\<lparr>APIGroups = [''a''], Kinds = [''b''], Description = ''''\<rparr>]
   \<and> Kinds \<lparr>APIGroups = [''a''], Kinds = [''b''], Description = ''''\<rparr> \<noteq> [''b/c'']"
  by (simp add: getPolicyCommentBlocks_def parsed_def kindsBlock_def getDedupedGroups_def
      Trim_def TrimLeft_def TrimRight_def)

lemma kindsBlock_fields:
  "kindsBlock uf d c = Inr b \<Longrightarrow>
     Kinds b = map betweenSlashes (pairTokens c)
     \<and> APIGroups b = getDedupedGroups uf (map beforeSlash (pairTokens c))
     \<and> (\<forall>tok \<in> set (pairTokens c). CHR ''/'' \<in> set tok)"
  by (auto simp: kindsBlock_eq split: if_splits)

text \<open>
  Claim C3, amended. Each pair token of a marker comment is cut at every \<open>'/'\<close>: the
  group it contributes (before deduplication) is the substring before its first \<open>'/'\<close>,
  and the kinds entry is the substring between its first and its second \<open>'/'\<close>, or all
  that follows the first \<open>'/'\<close> when there is no second one (so \<open>a/b/c\<close> contributes the
  kind \<open>b\<close>).
\<close>

theorem pair_token_split:
  assumes "parse policy = (pre @ m # post, [])"
    and "isMarker m"
    and "getPolicyCommentBlocks uf parse policy = Inr out"
  shows "Kinds (out ! length (filter isMarker pre)) = map betweenSlashes (pairTokens m)
     \<and> APIGroups (out ! length (filter isMarker pre))
         = getDedupedGroups uf (map beforeSlash (pairTokens m))
     \<and> (\<forall>tok \<in> set (pairTokens m).
           tok = beforeSlash tok @ ''/'' @ afterSlash tok
           \<and> CHR ''/'' \<notin> set (beforeSlash tok)
           \<and> CHR ''/'' \<notin> set (betweenSlashes tok)
           \<and> (afterSlash tok = betweenSlashes tok
                \<or> (\<exists>rest. afterSlash tok = betweenSlashes tok @ ''/'' @ rest)))
     \<and> betweenSlashes ''a/b/c'' = ''b''"
proof -
  let ?b = "out ! length (filter isMarker pre)"
  have b: "kindsBlock uf (precedingDescription pre) m = Inr ?b"
    using assms by (rule marker_record)
  note f = kindsBlock_fields [OF b]
  from f have wf: "\<forall>tok \<in> set (pairTokens m). CHR ''/'' \<in> set tok" by blast
  from f have rec: "Kinds ?b = map betweenSlashes (pairTokens m)"
    "APIGroups ?b = getDedupedGroups uf (map beforeSlash (pairTokens m))"
    by blast+
  have parts: "tok = beforeSlash tok @ ''/'' @ afterSlash tok
           \<and> CHR ''/'' \<notin> set (beforeSlash tok)
           \<and> CHR ''/'' \<notin> set (betweenSlashes tok)
           \<and> (afterSlash tok = betweenSlashes tok
                \<or> (\<exists>rest. afterSlash tok = betweenSlashes tok @ ''/'' @ rest))"
    if "tok \<in> set (pairTokens m)" for tok
  proof -
    from that wf have "CHR ''/'' \<in> set tok" by blast
    then have "tok = beforeSlash tok @ ''/'' @ afterSlash tok" by (rule beforeSlash_afterSlash)
    moreover have "CHR ''/'' \<notin> set (betweenSlashes tok)"
      unfolding betweenSlashes_def by (rule beforeSlash_no_slash)
    ultimately show ?thesis
      using beforeSlash_no_slash [of tok] afterSlash_betweenSlashes [of tok] by blast
  qed
  have ex: "betweenSlashes ''a/b/c'' = ''b''"
    by (simp add: betweenSlashes_def beforeSlash_def afterSlash_def)
  from rec parts ex show ?thesis by blast
qed

theorem pair_token_split_witness:
  "parsed ['' d'', '' @Kinds apps/Deployment/v1 Apps/x''] ''''
     = (['' d''] @ '' @Kinds apps/Deployment/v1 Apps/x'' # [], [])
   \<and> isMarker '' @Kinds apps/Deployment/v1 Apps/x''
   \<and> getPolicyCommentBlocks asciiText (parsed ['' d'', '' @Kinds apps/Deployment/v1 Apps/x'']) ''''
       = Inr [\<lparr>APIGroups = [''apps''], Kinds = [''Deployment'', ''x''], Description = ''d''\<rparr>]
   \<and> Kinds ([\<lparr>APIGroups = [''apps''], Kinds = [''Deployment'', ''x''], Description = ''d''\<rparr>]
              ! length (filter isMarker ['' d'']))
       = map betweenSlashes (pairTokens '' @Kinds apps/Deployment/v1 Apps/x'')
   \<and> pairTokens '' @Kinds apps/Deployment/v1 Apps/x'' = [''apps/Deployment/v1'', ''Apps/x'']"
proof -
  let ?m = "'' @Kinds apps/Deployment/v1 Apps/x''"
  have h1: "parsed ['' d'', ?m] '''' = (['' d''] @ ?m # [], [])"
    by (simp add: parsed_def)
  have h2: "isMarker ?m" by (simp add: isMarker_def)
  have h3: "getPolicyCommentBlocks asciiText (parsed ['' d'', ?m]) ''''
       = Inr [\<lparr>APIGroups = [''apps''], Kinds = [''Deployment'', ''x''], Description = ''d''\<rparr>]"
    by (simp add: getPolicyCommentBlocks_def parsed_def kindsBlock_def getDedupedGroups_def
        Trim_def TrimLeft_def TrimRight_def foldEq_def)
  have h4: "pairTokens ?m = [''apps/Deployment/v1'', ''Apps/x'']"
    by (simp add: pairTokens_def)
  note r = pair_token_split [OF h1 h2 h3]
  show ?thesis by (intro conjI h1 h2 h3 h4 r [THEN conjunct1])
qed

text \<open>
  Claim C4. When every marker comment of a file has at least two space-separated tokens
  and a \<open>'/'\<close> in each token after the first two, the index accesses stay in bounds and
  the records are returned. When some marker comment is not of that form the run ends in a
  runtime panic, never in an error value; a pair token without \<open>'/'\<close>, such as the empty
  token between two consecutive spaces, makes \<open>kindTokens[1]\<close> panic.
\<close>

theorem marker_fault:
  "(parse policy = (comments, []) \<longrightarrow>
      ((\<forall>c \<in> set comments. isMarker c \<longrightarrow> wellFormedMarker c) \<longrightarrow>
         (\<exists>out. getPolicyCommentBlocks uf parse policy = Inr out))
      \<and> (\<not> (\<forall>c \<in> set comments. isMarker c \<longrightarrow> wellFormedMarker c) \<longrightarrow>
         (\<exists>p. getPolicyCommentBlocks uf parse policy = Inl (Panicked p))))
   \<and> (2 \<le> length (Split c (CHR '' '')) \<longrightarrow> (\<exists>tok \<in> set (pairTokens c). CHR ''/'' \<notin> set tok) \<longrightarrow>
        kindsBlock uf d c = Inl (Panicked IndexOutOfRange))
   \<and> getPolicyCommentBlocks uf (parsed ['' @Kinds apps/Deployment  core/Pod'']) src
       = Inl (Panicked IndexOutOfRange)
   \<and> getPolicyCommentBlocks uf (parsed ['' @Kinds apps'']) src = Inl (Panicked IndexOutOfRange)"
proof (intro conjI impI)
  assume p: "parse policy = (comments, [])"
  then have g: "getPolicyCommentBlocks uf parse policy = commentLoop uf [] [] comments"
    by (rule getPolicyCommentBlocks_ok)
  {
    assume "\<forall>c \<in> set comments. isMarker c \<longrightarrow> wellFormedMarker c"
    then show "\<exists>out. getPolicyCommentBlocks uf parse policy = Inr out"
      unfolding g by (simp only: commentLoop_Inr_iff)
  next
    assume "\<not> (\<forall>c \<in> set comments. isMarker c \<longrightarrow> wellFormedMarker c)"
    then have "\<not> (\<exists>out. commentLoop uf [] [] comments = Inr out)"
      by (simp only: commentLoop_Inr_iff simp_thms)
    then obtain f where f: "commentLoop uf [] [] comments = Inl f"
      by (cases "commentLoop uf [] [] comments") auto
    from commentLoop_Inl [OF f] f
    show "\<exists>p. getPolicyCommentBlocks uf parse policy = Inl (Panicked p)"
      unfolding g by auto
  }
next
  assume "2 \<le> length (Split c (CHR '' ''))" "\<exists>tok \<in> set (pairTokens c). CHR ''/'' \<notin> set tok"
  then show "kindsBlock uf d c = Inl (Panicked IndexOutOfRange)"
    by (auto simp: kindsBlock_eq)
next
  show "getPolicyCommentBlocks uf (parsed ['' @Kinds apps/Deployment  core/Pod'']) src
       = Inl (Panicked IndexOutOfRange)"
    by (simp add: getPolicyCommentBlocks_def parsed_def kindsBlock_def)
  show "getPolicyCommentBlocks uf (parsed ['' @Kinds apps'']) src = Inl (Panicked IndexOutOfRange)"
    by (simp add: getPolicyCommentBlocks_def parsed_def kindsBlock_def)
qed

theorem marker_fault_witness:
  "parsed ['' d'', '' @Kinds a/B c/D''] '''' = (['' d'', '' @Kinds a/B c/D''], [])
   \<and> \<not> isMarker '' d'' \<and> isMarker '' @Kinds a/B c/D'' \<and> wellFormedMarker '' @Kinds a/B c/D''
   \<and> (\<exists>out. getPolicyCommentBlocks asciiText (parsed ['' d'', '' @Kinds a/B c/D'']) '''' = Inr out)
   \<and> parsed ['' d'', '' @Kinds a/B  c/D''] '''' = (['' d'', '' @Kinds a/B  c/D''], [])
   \<and> isMarker '' @Kinds a/B  c/D'' \<and> \<not> wellFormedMarker '' @Kinds a/B  c/D''
   \<and> (\<exists>p. getPolicyCommentBlocks asciiText (parsed ['' d'', '' @Kinds a/B  c/D'']) '''' = Inl (Panicked p))
   \<and> 2 \<le> length (Split '' @Kinds a/B  c/D'' (CHR '' ''))
   \<and> (\<exists>tok \<in> set (pairTokens '' @Kinds a/B  c/D''). CHR ''/'' \<notin> set tok)
   \<and> kindsBlock asciiText '' d'' '' @Kinds a/B  c/D'' = Inl (Panicked IndexOutOfRange)"
proof -
  have g1: "parsed ['' d'', '' @Kinds a/B c/D''] '''' = (['' d'', '' @Kinds a/B c/D''], [])"
    and b1: "parsed ['' d'', '' @Kinds a/B  c/D''] '''' = (['' d'', '' @Kinds a/B  c/D''], [])"
    by (simp_all add: parsed_def)
  have g2: "\<forall>c \<in> set ['' d'', '' @Kinds a/B c/D'']. isMarker c \<longrightarrow> wellFormedMarker c"
    by (simp add: isMarker_def wellFormedMarker_def pairTokens_def)
  have b2: "\<not> (\<forall>c \<in> set ['' d'', '' @Kinds a/B  c/D'']. isMarker c \<longrightarrow> wellFormedMarker c)"
    by (simp add: isMarker_def wellFormedMarker_def pairTokens_def)
  have e1: "\<not> isMarker '' d''" and e2: "isMarker '' @Kinds a/B c/D''"
    and e3: "wellFormedMarker '' @Kinds a/B c/D''" and e4: "isMarker '' @Kinds a/B  c/D''"
    and e5: "\<not> wellFormedMarker '' @Kinds a/B  c/D''"
    by (simp_all add: isMarker_def wellFormedMarker_def pairTokens_def)
  have c1: "2 \<le> length (Split '' @Kinds a/B  c/D'' (CHR '' ''))" by simp
  have c2: "\<exists>tok \<in> set (pairTokens '' @Kinds a/B  c/D''). CHR ''/'' \<notin> set tok"
    by (simp add: pairTokens_def)
  note good = marker_fault [where uf = asciiText and parse = "parsed ['' d'', '' @Kinds a/B c/D'']"
      and policy = "''''" and comments = "['' d'', '' @Kinds a/B c/D'']",
      THEN conjunct1, THEN mp, OF g1, THEN conjunct1, THEN mp, OF g2]
  note bad = marker_fault [where uf = asciiText and parse = "parsed ['' d'', '' @Kinds a/B  c/D'']"
      and policy = "''''" and comments = "['' d'', '' @Kinds a/B  c/D'']",
      THEN conjunct1, THEN mp, OF b1, THEN conjunct2, THEN mp, OF b2]
  note idx = marker_fault [where uf = asciiText and c = "'' @Kinds a/B  c/D''" and d = "'' d''",
      THEN conjunct2, THEN conjunct1, THEN mp, OF c1, THEN mp, OF c2]
  show ?thesis by (intro conjI g1 e1 e2 e3 good b1 e4 e5 bad c1 c2 idx)
qed

section \<open>The rendered document\<close>

lemma rowLoop_eq: "rowLoop policyDocument blocks = policyDocument @ concat (map tableRow blocks)"
  by (induction blocks arbitrary: policyDocument) simp_all

lemma Join_append:
  "Join (x # xs @ y # ys) sep = Join (x # xs) sep @ sep @ Join (y # ys) sep"
  by (induction xs arbitrary: x) simp_all

text \<open>
  Claim C7. For every list of records, also the empty one, the document is the title line
  \<open># Policies\<close>, a blank line, the header row, the separator row, and then one row per
  record in input order, whose cells are the groups joined with \<open>", "\<close>, the kinds joined
  with \<open>", "\<close> and the description as it is. With no record there is no data row. Joining
  puts the separator between the elements and nowhere else: nothing for no element, the
  element itself for one, and the joins of two non-empty parts with the separator between
  them. The last conjunct is a document of two records, one with several groups and
  kinds and a \<open>|\<close> in its description, one with no group and an empty description. The
  document is a function of the records, so equal input gives equal output.
\<close>

theorem policy_document_shape:
  "policyDocumentOf blocks
     = ''# Policies\<newline>\<newline>|API Groups|Kinds|Description|\<newline>|---|---|---|\<newline>''
       @ concat (map (\<lambda>b. ''|'' @ Join (APIGroups b) '', '' @ ''|'' @ Join (Kinds b) '', ''
                           @ ''|'' @ Description b @ ''|\<newline>'') blocks)
   \<and> policyDocumentOf []
       = ''# Policies\<newline>\<newline>|API Groups|Kinds|Description|\<newline>|---|---|---|\<newline>''
   \<and> Join [] sep = []
   \<and> Join [e] sep = e
   \<and> Join (x # xs @ y # ys) sep = Join (x # xs) sep @ sep @ Join (y # ys) sep
   \<and> Join [''apps'', ''core'', ''batch''] '', '' = ''apps, core, batch''
   \<and> policyDocumentOf
         [\<lparr>APIGroups = [''apps'', ''core''], Kinds = [''Deployment'', ''Pod'', ''Node''],
            Description = ''two | cells''\<rparr>,
          \<lparr>APIGroups = [], Kinds = [''Job''], Description = ''''\<rparr>]
       = ''# Policies\<newline>\<newline>|API Groups|Kinds|Description|\<newline>|---|---|---|\<newline>|apps, core|Deployment, Pod, Node|two | cells|\<newline>||Job||\<newline>''"
proof -
  have row: "tableRow = (\<lambda>b. ''|'' @ Join (APIGroups b) '', '' @ ''|'' @ Join (Kinds b) '', ''
                           @ ''|'' @ Description b @ ''|\<newline>'')"
    by (rule ext) (simp add: tableRow_def)
  have doc: "policyDocumentOf blocks
     = ''# Policies\<newline>\<newline>|API Groups|Kinds|Description|\<newline>|---|---|---|\<newline>''
       @ concat (map tableRow blocks)" for blocks
    by (simp add: policyDocumentOf_def rowLoop_eq)
  have shape: "policyDocumentOf blocks
     = ''# Policies\<newline>\<newline>|API Groups|Kinds|Description|\<newline>|---|---|---|\<newline>''
       @ concat (map (\<lambda>b. ''|'' @ Join (APIGroups b) '', '' @ ''|'' @ Join (Kinds b) '', ''
                           @ ''|'' @ Description b @ ''|\<newline>'') blocks)"
    using doc [of blocks] unfolding row .
  have none: "policyDocumentOf []
       = ''# Policies\<newline>\<newline>|API Groups|Kinds|Description|\<newline>|---|---|---|\<newline>''"
    by (simp add: doc)
  have j0: "Join [] sep = []" and j1: "Join [e] sep = e" by simp_all
  have j2: "Join (x # xs @ y # ys) sep = Join (x # xs) sep @ sep @ Join (y # ys) sep"
    by (rule Join_append)
  have j3: "Join [''apps'', ''core'', ''batch''] '', '' = ''apps, core, batch''" by simp
  have two: "policyDocumentOf
         [\<lparr>APIGroups = [''apps'', ''core''], Kinds = [''Deployment'', ''Pod'', ''Node''],
            Description = ''two | cells''\<rparr>,
          \<lparr>APIGroups = [], Kinds = [''Job''], Description = ''''\<rparr>]
       = ''# Policies\<newline>\<newline>|API Groups|Kinds|Description|\<newline>|---|---|---|\<newline>|apps, core|Deployment, Pod, Node|two | cells|\<newline>||Job||\<newline>''"
    by (simp add: policyDocumentOf_def tableRow_def)
  show ?thesis by (intro conjI shape none j0 j1 j2 j3 two)
qed

lemma precedingDescription_snoc:
  "\<not> isMarker d \<Longrightarrow> precedingDescription (pre @ [d]) = d"
  by (simp add: precedingDescription_def)

text \<open>
  Claim C10. The description of every record is the description current at its marker
  (the most recent non-marker comment, wherever it stands before the marker) trimmed of
  spaces (U+0020) only: what is removed is a run of spaces at each end, so a description
  that begins and ends with other whitespace, such as a tab, is kept whole, and the table
  row carries the description of the record as it is.
\<close>

theorem description_trimmed_of_spaces_only:
  assumes "parse policy = (pre @ m # post, [])"
    and "isMarker m"
    and "getPolicyCommentBlocks uf parse policy = Inr out"
  shows "Description (out ! length (filter isMarker pre)) = Trim (precedingDescription pre) '' ''
     \<and> (\<exists>n k. precedingDescription pre
                 = replicate n (CHR '' '') @ Description (out ! length (filter isMarker pre))
                   @ replicate k (CHR '' ''))
     \<and> (Description (out ! length (filter isMarker pre)) \<noteq> [] \<longrightarrow>
          hd (Description (out ! length (filter isMarker pre))) \<noteq> CHR '' ''
          \<and> last (Description (out ! length (filter isMarker pre))) \<noteq> CHR '' '')
     \<and> (precedingDescription pre \<noteq> [] \<and> hd (precedingDescription pre) \<noteq> CHR '' ''
          \<and> last (precedingDescription pre) \<noteq> CHR '' '' \<longrightarrow>
          Description (out ! length (filter isMarker pre)) = precedingDescription pre)
     \<and> (\<forall>d. \<not> isMarker d \<longrightarrow> precedingDescription (pre @ [d]) = d)
     \<and> tableRow (out ! length (filter isMarker pre))
         = ''|'' @ Join (APIGroups (out ! length (filter isMarker pre))) '', ''
           @ ''|'' @ Join (Kinds (out ! length (filter isMarker pre))) '', ''
           @ ''|'' @ Description (out ! length (filter isMarker pre)) @ ''|\<newline>''"
proof -
  let ?b = "out ! length (filter isMarker pre)"
  let ?d = "precedingDescription pre"
  have "kindsBlock uf ?d m = Inr ?b" using assms by (rule marker_record)
  then have t: "Description ?b = Trim ?d '' ''" by (rule kindsBlock_Description)
  have only: "\<exists>n k. ?d = replicate n (CHR '' '') @ Description ?b @ replicate k (CHR '' '')"
    unfolding t by (rule Trim_spaces)
  have ends: "hd (Description ?b) \<noteq> CHR '' '' \<and> last (Description ?b) \<noteq> CHR '' ''"
    if "Description ?b \<noteq> []"
    using that Trim_ends [of ?d "'' ''"] unfolding t by simp
  have same: "Description ?b = ?d" if "?d \<noteq> [] \<and> hd ?d \<noteq> CHR '' '' \<and> last ?d \<noteq> CHR '' ''"
    using that Trim_id [of ?d "'' ''"] unfolding t by simp
  have cur: "\<forall>d. \<not> isMarker d \<longrightarrow> precedingDescription (pre @ [d]) = d"
    by (simp add: precedingDescription_snoc)
  have row: "tableRow ?b = ''|'' @ Join (APIGroups ?b) '', '' @ ''|'' @ Join (Kinds ?b) '', ''
           @ ''|'' @ Description ?b @ ''|\<newline>''"
    by (simp add: tableRow_def)
  from t only ends same cur row show ?thesis by blast
qed

theorem description_trimmed_of_spaces_only_witness:
  "parsed [CHR 0x09 # ''  keep tabs '' @ [CHR 0x09, CHR '' ''], '' @Kinds a/B'', '' @Kinds c/D''] ''''
     = ([CHR 0x09 # ''  keep tabs '' @ [CHR 0x09, CHR '' ''], '' @Kinds a/B'']
          @ '' @Kinds c/D'' # [], [])
   \<and> isMarker '' @Kinds c/D''
   \<and> getPolicyCommentBlocks asciiText
        (parsed [CHR 0x09 # ''  keep tabs '' @ [CHR 0x09, CHR '' ''], '' @Kinds a/B'',
                 '' @Kinds c/D'']) ''''
       = Inr [\<lparr>APIGroups = [''a''], Kinds = [''B''],
                Description = CHR 0x09 # ''  keep tabs '' @ [CHR 0x09]\<rparr>,
              \<lparr>APIGroups = [''c''], Kinds = [''D''],
                Description = CHR 0x09 # ''  keep tabs '' @ [CHR 0x09]\<rparr>]
   \<and> Description ([\<lparr>APIGroups = [''a''], Kinds = [''B''],
                Description = CHR 0x09 # ''  keep tabs '' @ [CHR 0x09]\<rparr>,
              \<lparr>APIGroups = [''c''], Kinds = [''D''],
                Description = CHR 0x09 # ''  keep tabs '' @ [CHR 0x09]\<rparr>]
          ! length (filter isMarker
              [CHR 0x09 # ''  keep tabs '' @ [CHR 0x09, CHR '' ''], '' @Kinds a/B'']))
       = Trim (precedingDescription
                 [CHR 0x09 # ''  keep tabs '' @ [CHR 0x09, CHR '' ''], '' @Kinds a/B'']) '' ''
   \<and> precedingDescription [CHR 0x09 # ''  keep tabs '' @ [CHR 0x09, CHR '' ''], '' @Kinds a/B'']
       = CHR 0x09 # ''  keep tabs '' @ [CHR 0x09, CHR '' '']"
proof -
  let ?d = "CHR 0x09 # ''  keep tabs '' @ [CHR 0x09, CHR '' '']"
  let ?out = "[\<lparr>APIGroups = [''a''], Kinds = [''B''],
                Description = CHR 0x09 # ''  keep tabs '' @ [CHR 0x09]\<rparr>,
              \<lparr>APIGroups = [''c''], Kinds = [''D''],
                Description = CHR 0x09 # ''  keep tabs '' @ [CHR 0x09]\<rparr>]"
  have h1: "parsed [?d, '' @Kinds a/B'', '' @Kinds c/D''] ''''
      = ([?d, '' @Kinds a/B''] @ '' @Kinds c/D'' # [], [])"
    by (simp add: parsed_def)
  have h2: "isMarker '' @Kinds c/D''"
    by (simp add: isMarker_def)
  have h3: "getPolicyCommentBlocks asciiText (parsed [?d, '' @Kinds a/B'', '' @Kinds c/D'']) ''''
      = Inr ?out"
    by (simp add: getPolicyCommentBlocks_def parsed_def kindsBlock_def getDedupedGroups_def
        Trim_def TrimLeft_def TrimRight_def foldEq_def)
  have p: "precedingDescription [?d, '' @Kinds a/B''] = ?d"
    by (simp add: precedingDescription_def isMarker_def)
  note r = description_trimmed_of_spaces_only [OF h1 h2 h3]
  show ?thesis by (intro conjI h1 h2 h3 p r [THEN conjunct1])
qed

section \<open>The pipeline over the files\<close>

lemma fileLoop_all_good:
  assumes "\<forall>f \<in> set fs. \<exists>policyBytes. ReadFile E w f = Inr policyBytes
             \<and> getPolicyCommentBlocks (unicodePath E) (Parse E) policyBytes = Inr (records f)"
  shows "fileLoop E w acc fs = Inr (acc @ concat (map records fs))"
  using assms by (induction fs arbitrary: acc) auto

lemma fileLoop_append:
  assumes "\<forall>f \<in> set good. \<exists>policyBytes bs. ReadFile E w f = Inr policyBytes
             \<and> getPolicyCommentBlocks (unicodePath E) (Parse E) policyBytes = Inr bs"
  shows "\<exists>acc'. fileLoop E w acc (good @ rest) = fileLoop E w acc' rest"
  using assms by (induction good arbitrary: acc) auto

lemma fileLoop_failure:
  assumes "\<exists>f \<in> set fs. (\<exists>err. ReadFile E w f = Inl err)
             \<or> (\<exists>policyBytes. ReadFile E w f = Inr policyBytes \<and> snd (Parse E policyBytes) \<noteq> [])"
  shows "\<exists>f. fileLoop E w acc fs = Inl f"
  using assms
proof (induction fs arbitrary: acc)
  case Nil
  then show ?case by simp
next
  case (Cons p ps)
  show ?case
  proof (cases "ReadFile E w p")
    case (Inl err)
    then show ?thesis by simp
  next
    case (Inr policyBytes)
    show ?thesis
    proof (cases "getPolicyCommentBlocks (unicodePath E) (Parse E) policyBytes")
      case (Inl f)
      then show ?thesis using Inr by (cases f) simp_all
    next
      case blocks: (Inr bs)
      then have "snd (Parse E policyBytes) = []"
        by (auto simp: getPolicyCommentBlocks_def split: prod.splits if_splits)
      with Cons.prems Inr have "\<exists>f \<in> set ps. (\<exists>err. ReadFile E w f = Inl err)
             \<or> (\<exists>policyBytes. ReadFile E w f = Inr policyBytes \<and> snd (Parse E policyBytes) \<noteq> [])"
        by auto
      from Cons.IH [OF this] show ?thesis using Inr blocks by simp
    qed
  qed
qed

lemma runDocCommand_failure:
  "getPolicyDocumentation E w path = Inl f \<Longrightarrow>
     runDocCommand E w path
       = (case f of Returned err \<Rightarrow> Done (Some (Errorf ''get policy documentation'' err))
                  | Panicked p \<Rightarrow> Panic p, w)"
  by (cases f) (simp_all add: runDocCommand_def)

text \<open>
  Claim C8. When the files \<open>F1..Fn\<close> are enumerated in this order and each one is read
  and yields its records, the data rows of the document are the rows of the records of
  \<open>F1\<close>, then those of \<open>F2\<close>, and so on, each file's records in their own order:
  nothing is sorted, dropped or reordered.
\<close>

theorem rows_in_file_order:
  assumes "getRegoFilePaths E w path = Inr regoFilePaths"
    and "\<forall>f \<in> set regoFilePaths. \<exists>policyBytes. ReadFile E w f = Inr policyBytes
           \<and> getPolicyCommentBlocks (unicodePath E) (Parse E) policyBytes = Inr (records f)"
  shows "getPolicyDocumentation E w path
     = Inr (''# Policies\<newline>\<newline>|API Groups|Kinds|Description|\<newline>|---|---|---|\<newline>''
            @ concat (map tableRow (concat (map records regoFilePaths))))"
proof -
  have "fileLoop E w [] regoFilePaths = Inr ([] @ concat (map records regoFilePaths))"
    using assms(2) by (rule fileLoop_all_good)
  then show ?thesis
    using assms(1) by (simp add: getPolicyDocumentation_def policyDocumentOf_def rowLoop_eq)
qed

theorem rows_in_file_order_witness:
  "getRegoFilePaths
     \<lparr>getRegoFilePaths = (\<lambda>w p. Inr [''b.rego'', ''a.rego'']),
      ReadFile = (\<lambda>w p. Inr p),
      unicodePath = asciiText,
      Parse = (\<lambda>policy. if policy = ''a.rego'' then (['' one'', '' @Kinds apps/Deployment''], [])
                          else (['' two'', '' @Kinds core/Pod'', '' @Kinds core/Node''], [])),
      viperOutput = ''policies.md'',
      filepathJoin = (\<lambda>d f. d @ ''/'' @ f),
      WriteFile = (\<lambda>p content w. (None, (p, content) # w))\<rparr> ([] :: (string \<times> string) list) ''dir''
     = Inr [''b.rego'', ''a.rego'']
   \<and> getPolicyDocumentation
     \<lparr>getRegoFilePaths = (\<lambda>w p. Inr [''b.rego'', ''a.rego'']),
      ReadFile = (\<lambda>w p. Inr p),
      unicodePath = asciiText,
      Parse = (\<lambda>policy. if policy = ''a.rego'' then (['' one'', '' @Kinds apps/Deployment''], [])
                          else (['' two'', '' @Kinds core/Pod'', '' @Kinds core/Node''], [])),
      viperOutput = ''policies.md'',
      filepathJoin = (\<lambda>d f. d @ ''/'' @ f),
      WriteFile = (\<lambda>p content w. (None, (p, content) # w))\<rparr> ([] :: (string \<times> string) list) ''dir''
     = Inr ''# Policies\<newline>\<newline>|API Groups|Kinds|Description|\<newline>|---|---|---|\<newline>|core|Pod|two|\<newline>|core|Node|two|\<newline>|apps|Deployment|one|\<newline>''"
proof -
  let ?E = "\<lparr>getRegoFilePaths = (\<lambda>w p. Inr [''b.rego'', ''a.rego'']),
      ReadFile = (\<lambda>w p. Inr p),
      unicodePath = asciiText,
      Parse = (\<lambda>policy. if policy = ''a.rego'' then (['' one'', '' @Kinds apps/Deployment''], [])
                          else (['' two'', '' @Kinds core/Pod'', '' @Kinds core/Node''], [])),
      viperOutput = ''policies.md'',
      filepathJoin = (\<lambda>d f. d @ ''/'' @ f),
      WriteFile = (\<lambda>p content w. (None, (p, content) # w))\<rparr> :: (string \<times> string) list env"
  let ?records = "\<lambda>f. if f = ''a.rego''
      then [\<lparr>APIGroups = [''apps''], Kinds = [''Deployment''], Description = ''one''\<rparr>]
      else [\<lparr>APIGroups = [''core''], Kinds = [''Pod''], Description = ''two''\<rparr>,
            \<lparr>APIGroups = [''core''], Kinds = [''Node''], Description = ''two''\<rparr>]"
  have h1: "getRegoFilePaths ?E [] ''dir'' = Inr [''b.rego'', ''a.rego'']" by simp
  have h2: "\<forall>f \<in> set [''b.rego'', ''a.rego'']. \<exists>policyBytes. ReadFile ?E [] f = Inr policyBytes
           \<and> getPolicyCommentBlocks (unicodePath ?E) (Parse ?E) policyBytes = Inr (?records f)"
    by (simp add: getPolicyCommentBlocks_def kindsBlock_def getDedupedGroups_def
        Trim_def TrimLeft_def TrimRight_def foldEq_def)
  have "getPolicyDocumentation ?E [] ''dir''
     = Inr (''# Policies\<newline>\<newline>|API Groups|Kinds|Description|\<newline>|---|---|---|\<newline>''
            @ concat (map tableRow (concat (map ?records [''b.rego'', ''a.rego'']))))"
    using h1 h2 by (rule rows_in_file_order)
  then have "getPolicyDocumentation ?E [] ''dir''
     = Inr ''# Policies\<newline>\<newline>|API Groups|Kinds|Description|\<newline>|---|---|---|\<newline>|core|Pod|two|\<newline>|core|Node|two|\<newline>|apps|Deployment|one|\<newline>''"
    by (simp add: tableRow_def)
  with h1 show ?thesis by (intro conjI)
qed

text \<open>
  Claim C9. Whenever \<open>getPolicyDocumentation\<close> fails, \<open>runDocCommand\<close> returns without
  calling the writer, so the world (and with it an output file of an earlier run) is as it
  was. An error of the enumeration, or the read error or syntax errors of the first file
  that fails, is the error the run returns, wrapped; and if any file at all cannot be read
  or parsed, the run does not succeed and writes nothing.
\<close>

theorem no_write_after_error:
  "(getPolicyDocumentation E w path = Inl f \<longrightarrow>
      runDocCommand E w path
        = (case f of Returned e \<Rightarrow> Done (Some (Errorf ''get policy documentation'' e))
                   | Panicked p \<Rightarrow> Panic p, w))
   \<and> (getRegoFilePaths E w path = Inl err \<longrightarrow>
      runDocCommand E w path
        = (Done (Some (Errorf ''get policy documentation'' (Errorf ''get rego files'' err))), w))
   \<and> (getRegoFilePaths E w path = Inr (good @ bad # rest) \<longrightarrow>
      (\<forall>g \<in> set good. \<exists>policyBytes bs. ReadFile E w g = Inr policyBytes
           \<and> getPolicyCommentBlocks (unicodePath E) (Parse E) policyBytes = Inr bs) \<longrightarrow>
        (ReadFile E w bad = Inl err \<longrightarrow>
           runDocCommand E w path
             = (Done (Some (Errorf ''get policy documentation'' (Errorf ''reading file'' err))), w))
        \<and> (ReadFile E w bad = Inr policyBytes \<longrightarrow> Parse E policyBytes = (comments, errors) \<longrightarrow>
            errors \<noteq> [] \<longrightarrow>
           runDocCommand E w path
             = (Done (Some (Errorf ''get policy documentation''
                  (Errorf ''get policy comment block''
                    (Errorf ''parsing rego'' (ParserErrors errors))))), w)))
   \<and> (getRegoFilePaths E w path = Inr regoFilePaths \<longrightarrow>
      (\<exists>p \<in> set regoFilePaths. (\<exists>e. ReadFile E w p = Inl e)
          \<or> (\<exists>bytes. ReadFile E w p = Inr bytes \<and> snd (Parse E bytes) \<noteq> [])) \<longrightarrow>
        snd (runDocCommand E w path) = w \<and> fst (runDocCommand E w path) \<noteq> Done None)"
proof (intro conjI impI)
  assume "getPolicyDocumentation E w path = Inl f"
  then show "runDocCommand E w path
        = (case f of Returned e \<Rightarrow> Done (Some (Errorf ''get policy documentation'' e))
                   | Panicked p \<Rightarrow> Panic p, w)"
    by (rule runDocCommand_failure)
next
  assume "getRegoFilePaths E w path = Inl err"
  then have "getPolicyDocumentation E w path = Inl (Returned (Errorf ''get rego files'' err))"
    by (simp add: getPolicyDocumentation_def)
  from runDocCommand_failure [OF this]
  show "runDocCommand E w path
        = (Done (Some (Errorf ''get policy documentation'' (Errorf ''get rego files'' err))), w)"
    by simp
next
  assume paths: "getRegoFilePaths E w path = Inr (good @ bad # rest)"
    and good: "\<forall>g \<in> set good. \<exists>policyBytes bs. ReadFile E w g = Inr policyBytes
           \<and> getPolicyCommentBlocks (unicodePath E) (Parse E) policyBytes = Inr bs"
  from fileLoop_append [OF good, of "[]" "bad # rest"]
  obtain acc where acc: "fileLoop E w [] (good @ bad # rest) = fileLoop E w acc (bad # rest)"
    by blast
  {
    assume "ReadFile E w bad = Inl err"
    then have "fileLoop E w acc (bad # rest) = Inl (Returned (Errorf ''reading file'' err))"
      by simp
    then have "getPolicyDocumentation E w path = Inl (Returned (Errorf ''reading file'' err))"
      using paths acc by (simp add: getPolicyDocumentation_def)
    from runDocCommand_failure [OF this]
    show "runDocCommand E w path
             = (Done (Some (Errorf ''get policy documentation'' (Errorf ''reading file'' err))), w)"
      by simp
  next
    assume "ReadFile E w bad = Inr policyBytes" "Parse E policyBytes = (comments, errors)"
      "errors \<noteq> []"
    then have "fileLoop E w acc (bad # rest)
        = Inl (Returned (Errorf ''get policy comment block''
                 (Errorf ''parsing rego'' (ParserErrors errors))))"
      by (simp add: getPolicyCommentBlocks_def)
    then have "getPolicyDocumentation E w path
        = Inl (Returned (Errorf ''get policy comment block''
                 (Errorf ''parsing rego'' (ParserErrors errors))))"
      using paths acc by (simp add: getPolicyDocumentation_def)
    from runDocCommand_failure [OF this]
    show "runDocCommand E w path
             = (Done (Some (Errorf ''get policy documentation''
                  (Errorf ''get policy comment block''
                    (Errorf ''parsing rego'' (ParserErrors errors))))), w)"
      by simp
  }
next
  assume paths: "getRegoFilePaths E w path = Inr regoFilePaths"
    and bad: "\<exists>p \<in> set regoFilePaths. (\<exists>e. ReadFile E w p = Inl e)
          \<or> (\<exists>bytes. ReadFile E w p = Inr bytes \<and> snd (Parse E bytes) \<noteq> [])"
  from fileLoop_failure [OF bad, of "[]"] obtain f where "fileLoop E w [] regoFilePaths = Inl f"
    by blast
  with paths have "getPolicyDocumentation E w path = Inl f"
    by (simp add: getPolicyDocumentation_def)
  from runDocCommand_failure [OF this]
  show "snd (runDocCommand E w path) = w" "fst (runDocCommand E w path) \<noteq> Done None"
    by (cases f; simp)+
qed

theorem no_write_after_error_witness:
  "getRegoFilePaths
     \<lparr>getRegoFilePaths = (\<lambda>w p. Inr [''a.rego'', ''b.rego'']),
      ReadFile = (\<lambda>w p. if p = ''a.rego'' then Inr p else Inl (External ''permission denied'')),
      unicodePath = asciiText,
      Parse = (\<lambda>policy. (['' one'', '' @Kinds apps/Deployment''], [])),
      viperOutput = ''policies.md'',
      filepathJoin = (\<lambda>d f. d @ ''/'' @ f),
      WriteFile = (\<lambda>p content w. (None, (p, content) # w))\<rparr>
     [(''dir/policies.md'', ''old'')] ''dir''
     = Inr ([''a.rego''] @ ''b.rego'' # [])
   \<and> runDocCommand
     \<lparr>getRegoFilePaths = (\<lambda>w p. Inr [''a.rego'', ''b.rego'']),
      ReadFile = (\<lambda>w p. if p = ''a.rego'' then Inr p else Inl (External ''permission denied'')),
      unicodePath = asciiText,
      Parse = (\<lambda>policy. (['' one'', '' @Kinds apps/Deployment''], [])),
      viperOutput = ''policies.md'',
      filepathJoin = (\<lambda>d f. d @ ''/'' @ f),
      WriteFile = (\<lambda>p content w. (None, (p, content) # w))\<rparr>
     [(''dir/policies.md'', ''old'')] ''dir''
     = (Done (Some (Errorf ''get policy documentation''
                (Errorf ''reading file'' (External ''permission denied'')))),
        [(''dir/policies.md'', ''old'')])"
proof -
  let ?E = "\<lparr>getRegoFilePaths = (\<lambda>w p. Inr [''a.rego'', ''b.rego'']),
      ReadFile = (\<lambda>w p. if p = ''a.rego'' then Inr p else Inl (External ''permission denied'')),
      unicodePath = asciiText,
      Parse = (\<lambda>policy. (['' one'', '' @Kinds apps/Deployment''], [])),
      viperOutput = ''policies.md'',
      filepathJoin = (\<lambda>d f. d @ ''/'' @ f),
      WriteFile = (\<lambda>p content w. (None, (p, content) # w))\<rparr> :: (string \<times> string) list env"
  let ?w = "[(''dir/policies.md'', ''old'')]"
  have h1: "getRegoFilePaths ?E ?w ''dir'' = Inr ([''a.rego''] @ ''b.rego'' # [])" by simp
  have h2: "\<forall>g \<in> set [''a.rego'']. \<exists>policyBytes bs. ReadFile ?E ?w g = Inr policyBytes
           \<and> getPolicyCommentBlocks (unicodePath ?E) (Parse ?E) policyBytes = Inr bs"
    by (simp add: getPolicyCommentBlocks_def kindsBlock_def)
  have h3: "ReadFile ?E ?w ''b.rego'' = Inl (External ''permission denied'')" by simp
  note r = no_write_after_error [where E = ?E and w = ?w and path = "''dir''"
      and good = "[''a.rego'']" and bad = "''b.rego''" and rest = "[]"
      and err = "External ''permission denied''",
      THEN conjunct2, THEN conjunct2, THEN conjunct1, THEN mp, OF h1, THEN mp, OF h2,
      THEN conjunct1, THEN mp, OF h3]
  show ?thesis by (intro conjI h1 r)
qed

end
